theory Spec2Isabelle
  imports Complex_Main "HOL-Library.AList" "HOL-Library.Sublist"
begin

section \<open>Python values, exceptions and string primitives\<close>

text \<open>
  The program is a Python module (\<^verbatim>\<open>app.py\<close>). Strings are lists of 8-bit characters, so
  the model covers the texts whose code points are below 256. Floats are the values of a type
  \<open>'f\<close> about which nothing is assumed: rounding, the infinities and NaN are whatever the
  interpreter makes them.

  Exceptions are values. \<^verbatim>\<open>except Exception\<close> catches every exception below except the
  ones that derive from \<^verbatim>\<open>BaseException\<close> only; a bare \<^verbatim>\<open>except:\<close> catches all.
\<close>

datatype exn =
    AttributeError | TypeError | ValueError
  | WebDriverException | RequestException
  | KeyboardInterrupt

definition is_Exception :: "exn \<Rightarrow> bool" where
  "is_Exception e \<longleftrightarrow> e \<noteq> KeyboardInterrupt"

datatype 'f pyval = PNone | PInt int | PFloat 'f | PStr string

definition isspace :: "char \<Rightarrow> bool" where
  \<comment> \<open>\<^verbatim>\<open>str.isspace\<close> on the code points below 256\<close>
  "isspace c \<longleftrightarrow> c \<in> {CHR 0x09, CHR 0x0A, CHR 0x0B, CHR 0x0C, CHR 0x0D,
      CHR 0x1C, CHR 0x1D, CHR 0x1E, CHR 0x1F, CHR 0x20, CHR 0x85, CHR 0xA0}"

definition strip :: "string \<Rightarrow> string" where
  \<comment> \<open>\<^verbatim>\<open>s.strip()\<close>\<close>
  "strip s = rev (dropWhile isspace (rev (dropWhile isspace s)))"

fun split_on :: "char \<Rightarrow> string \<Rightarrow> string list" where
  \<comment> \<open>\<^verbatim>\<open>s.split(sep)\<close> for a separator of one character\<close>
  "split_on sep [] = [[]]"
| "split_on sep (x # xs) =
     (if x = sep then [] # split_on sep xs
      else (case split_on sep xs of [] \<Rightarrow> [[x]] | r # rs \<Rightarrow> (x # r) # rs))"

fun contains :: "string \<Rightarrow> string \<Rightarrow> bool" where
  \<comment> \<open>\<^verbatim>\<open>sub in s\<close>; \<^verbatim>\<open>s.startswith(p)\<close> is \<open>prefix p s\<close>\<close>
  "contains sub [] \<longleftrightarrow> sub = []"
| "contains sub (x # xs) \<longleftrightarrow> prefix sub (x # xs) \<or> contains sub xs"

definition lower_char :: "char \<Rightarrow> char" where
  \<comment> \<open>\<^verbatim>\<open>str.lower\<close> on one code point below 256: A--Z and the accented capitals\<close>
  "lower_char c =
     (let n = (of_char c :: nat) in
      if (65 \<le> n \<and> n \<le> 90) \<or> (192 \<le> n \<and> n \<le> 222 \<and> n \<noteq> 215) then char_of (n + 32) else c)"

definition lower :: "string \<Rightarrow> string" where
  "lower s = map lower_char s"

definition isdigit :: "char \<Rightarrow> bool" where
  \<comment> \<open>\<^verbatim>\<open>str.isdigit\<close> below 256: the ten digits and the superscripts one, two, three\<close>
  "isdigit c \<longleftrightarrow> c \<in> set ''0123456789'' \<or> c \<in> {CHR 0xB2, CHR 0xB3, CHR 0xB9}"

definition is_decimal :: "char \<Rightarrow> bool" where
  \<comment> \<open>the class \<^verbatim>\<open>\d\<close> of a text pattern, below 256\<close>
  "is_decimal c \<longleftrightarrow> c \<in> set ''0123456789''"

section \<open>CSV numeric extraction\<close>

text \<open>
  The arithmetic of floats belongs to the interpreter, so \<open>csv_sum\<close> takes it as a record of
  four operations: \<open>float_of\<close> is the builtin \<^verbatim>\<open>float\<close> on a text (the float read, or the
  exception raised), \<open>float_gt_int\<close> and \<open>float_gt_float\<close> are \<^verbatim>\<open>n > t\<close> for a float \<open>n\<close> and an
  integer or a float \<open>t\<close>, and \<open>float_sum\<close> is the float that the builtin \<^verbatim>\<open>sum\<close> returns on a
  list of floats that is not empty.
\<close>

record 'f floats =
  float_of :: "string \<Rightarrow> exn + 'f"
  float_gt_int :: "'f \<Rightarrow> int \<Rightarrow> bool"
  float_gt_float :: "'f \<Rightarrow> 'f \<Rightarrow> bool"
  float_sum :: "'f list \<Rightarrow> 'f"

fun collect_cells :: "(string \<Rightarrow> exn + 'f) \<Rightarrow> 'f list \<Rightarrow> string list \<Rightarrow> 'f list" where
  \<comment> \<open>the inner loop: a cell that fails to parse is passed over by the bare \<^verbatim>\<open>except\<close>\<close>
  "collect_cells to_float nums [] = nums"
| "collect_cells to_float nums (cell # cells) =
     collect_cells to_float
       (case to_float (strip cell) of Inr v \<Rightarrow> nums @ [v] | Inl _ \<Rightarrow> nums) cells"

fun collect_rows :: "(string \<Rightarrow> exn + 'f) \<Rightarrow> 'f list \<Rightarrow> string list \<Rightarrow> 'f list" where
  "collect_rows to_float nums [] = nums"
| "collect_rows to_float nums (row # rows) =
     collect_rows to_float (collect_cells to_float nums (split_on CHR '','' row)) rows"

definition float_gt :: "'f floats \<Rightarrow> 'f \<Rightarrow> 'f pyval \<Rightarrow> exn + bool" where
  \<comment> \<open>\<^verbatim>\<open>n > threshold\<close> for a float \<open>n\<close>: a text or \<^verbatim>\<open>None\<close> cannot be compared with it\<close>
  "float_gt F n t =
     (case t of PInt i \<Rightarrow> Inr (float_gt_int F n i) | PFloat r \<Rightarrow> Inr (float_gt_float F n r)
      | PStr _ \<Rightarrow> Inl TypeError | PNone \<Rightarrow> Inl TypeError)"

fun keep_above :: "'f floats \<Rightarrow> 'f pyval \<Rightarrow> 'f list \<Rightarrow> exn + 'f list" where
  \<comment> \<open>\<^verbatim>\<open>[n for n in nums if n > threshold]\<close>\<close>
  "keep_above F t [] = Inr []"
| "keep_above F t (n # ns) =
     (case float_gt F n t of Inl e \<Rightarrow> Inl e
      | Inr b \<Rightarrow> (case keep_above F t ns of Inl e \<Rightarrow> Inl e
                  | Inr ks \<Rightarrow> Inr (if b then n # ks else ks)))"

definition py_sum :: "'f floats \<Rightarrow> 'f list \<Rightarrow> 'f pyval" where
  \<comment> \<open>\<^verbatim>\<open>sum(nums)\<close>: the integer 0 on the empty list, a float otherwise\<close>
  "py_sum F nums = (if nums = [] then PInt 0 else PFloat (float_sum F nums))"

definition csv_sum_body :: "'f floats \<Rightarrow> 'f pyval \<Rightarrow> 'f pyval \<Rightarrow> exn + 'f pyval" where
  \<comment> \<open>the statements inside the outer \<^verbatim>\<open>try\<close>\<close>
  "csv_sum_body F data threshold =
     (case data of
        PStr s \<Rightarrow>
          (let nums = collect_rows (float_of F) [] (split_on CHR 0x0A (strip s)) in
           case (if threshold \<noteq> PNone then keep_above F threshold nums else Inr nums) of
             Inl e \<Rightarrow> Inl e
           | Inr kept \<Rightarrow> Inr (py_sum F kept))
      | _ \<Rightarrow> Inl AttributeError)"

definition csv_sum :: "'f floats \<Rightarrow> 'f pyval \<Rightarrow> 'f pyval \<Rightarrow> exn + 'f pyval" where
  \<comment> \<open>\<open>Inr PNone\<close> is the return value \<^verbatim>\<open>None\<close>; \<open>Inl e\<close> is an exception leaving the function\<close>
  "csv_sum F data threshold =
     (case csv_sum_body F data threshold of
        Inr v \<Rightarrow> Inr v
      | Inl e \<Rightarrow> if is_Exception e then Inr PNone else Inl e)"


fun digits_value :: "nat \<Rightarrow> string \<Rightarrow> nat option" where
  \<comment> \<open>the value of a run of decimal digits, continuing from \<open>acc\<close>\<close>
  "digits_value acc [] = Some acc"
| "digits_value acc (c # cs) =
     (if c \<in> set ''0123456789'' then digits_value (10 * acc + (of_char c - 48)) cs else None)"






section \<open>Browser rendering\<close>

text \<open>
  The browser, the network and the library functions on URLs and patterns are collaborators
  of the program: they are the fields of an environment. The outside world is a state
  \<open>'w\<close> that every effectful call reads and updates; \<open>'d\<close> is the type of driver handles.
  \<open>build_driver\<close> only configures and calls the driver's constructor, so its outcome is
  the environment's. The pauses and the log lines of the source have no counterpart.
\<close>

datatype pattern = HrefPat | CsvHrefPat | DownloadPat | ScrapePat

record url_parts =
  scheme :: string
  netloc :: string

record ('w, 'd) env =
  build_driver :: "'w \<Rightarrow> (exn + 'd) \<times> 'w"
  driver_get :: "'d \<Rightarrow> string \<Rightarrow> 'w \<Rightarrow> exn option \<times> 'w"
  body_text :: "'d \<Rightarrow> 'w \<Rightarrow> (exn + string) \<times> 'w"
  driver_quit :: "'d \<Rightarrow> 'w \<Rightarrow> exn option \<times> 'w"
  re_findall :: "pattern \<Rightarrow> string \<Rightarrow> string list"
  urlparse :: "string \<Rightarrow> exn + url_parts"
  urljoin :: "string \<Rightarrow> string \<Rightarrow> exn + string"
  http_get :: "string \<Rightarrow> 'w \<Rightarrow> (exn + string) \<times> 'w"

definition render_try :: "('w, 'd) env \<Rightarrow> 'd \<Rightarrow> string \<Rightarrow> 'w \<Rightarrow> (exn + string) \<times> 'w" where
  \<comment> \<open>the statements inside the \<^verbatim>\<open>try\<close> of \<^verbatim>\<open>render_dynamic_page\<close>\<close>
  "render_try E d url w =
     (case driver_get E d url w of
        (Some e, w1) \<Rightarrow> (Inl e, w1)
      | (None, w1) \<Rightarrow>
          (case body_text E d w1 of
             (Inl e, w2) \<Rightarrow> (Inl e, w2)
           | (Inr text, w2) \<Rightarrow>
               (case driver_quit E d w2 of
                  (Some e, w3) \<Rightarrow> (Inl e, w3)
                | (None, w3) \<Rightarrow> (Inr text, w3))))"

definition render_dynamic_page :: "('w, 'd) env \<Rightarrow> string \<Rightarrow> 'w \<Rightarrow> (exn + string) \<times> 'w" where
  \<comment> \<open>the driver is built before the \<^verbatim>\<open>try\<close>; the handler quits the driver, ignoring
      whatever that raises, and returns the empty text\<close>
  "render_dynamic_page E url w =
     (case build_driver E w of
        (Inl e, w1) \<Rightarrow> (Inl e, w1)
      | (Inr d, w1) \<Rightarrow>
          (case render_try E d url w1 of
             (Inr text, w2) \<Rightarrow> (Inr text, w2)
           | (Inl e, w2) \<Rightarrow>
               if is_Exception e then (Inr [], snd (driver_quit E d w2)) else (Inl e, w2)))"

section \<open>Resource scraping\<close>

datatype event = Fetched string | Rendered string

record 'w sniff_state =
  unique :: "string set"
  discovered :: "(string \<times> string) list"
  world :: "'w"
  trace :: "event list"

text \<open>
  \<open>discovered\<close> is a dictionary in insertion order: assigning to a key that is present
  keeps its place (\<open>AList.update\<close>). \<open>trace\<close> records, in order, every URL requested over
  HTTP and every URL handed to the browser during discovery.
\<close>

definition extraction_patterns :: "pattern list" where
  "extraction_patterns = [HrefPat, CsvHrefPat, DownloadPat, ScrapePat]"

definition resolve_link :: "('w, 'd) env \<Rightarrow> string \<Rightarrow> string \<Rightarrow> exn + string" where
  "resolve_link E base link =
     (if prefix ''/'' link then
        (case urlparse E base of
           Inl e \<Rightarrow> Inl e
         | Inr parsed \<Rightarrow> Inr (scheme parsed @ ''://'' @ netloc parsed @ link))
      else if prefix ''http'' link then Inr link
      else urljoin E base link)"

definition fetch_body :: "('w, 'd) env \<Rightarrow> string \<Rightarrow> 'w sniff_state \<Rightarrow> (exn + string) \<times> 'w sniff_state" where
  \<comment> \<open>the request and the fallback to the browser for a short page that holds a script\<close>
  "fetch_body E final s =
     (case http_get E final (world s) of
        (Inl e, w1) \<Rightarrow> (Inl e, s\<lparr>world := w1, trace := trace s @ [Fetched final]\<rparr>)
      | (Inr body, w1) \<Rightarrow>
          if contains ''<script'' body \<and> length body < 600 then
            (case render_dynamic_page E final w1 of
               (r, w2) \<Rightarrow> (r, s\<lparr>world := w2, trace := trace s @ [Fetched final, Rendered final]\<rparr>))
          else (Inr body, s\<lparr>world := w1, trace := trace s @ [Fetched final]\<rparr>))"

definition sniff_step :: "('w, 'd) env \<Rightarrow> string \<Rightarrow> string \<Rightarrow> 'w sniff_state \<Rightarrow> exn option \<times> 'w sniff_state" where
  \<comment> \<open>one round of the loop over the candidates; \<open>Some e\<close> is an exception leaving the loop\<close>
  "sniff_step E base link s =
     (if prefix ''#'' link \<or> prefix ''javascript'' link then (None, s)
      else if link \<in> unique s then (None, s)
      else
        (let s1 = s\<lparr>unique := insert link (unique s)\<rparr> in
         case resolve_link E base link of
           Inl e \<Rightarrow> (Some e, s1)
         | Inr final \<Rightarrow>
             if contains ''submit'' (lower final) then (None, s1)
             else
               (case fetch_body E final s1 of
                  (Inr body, s2) \<Rightarrow>
                    (None, s2\<lparr>discovered := AList.update final (take 12000 body) (discovered s2)\<rparr>)
                | (Inl e, s2) \<Rightarrow> (if is_Exception e then None else Some e, s2))))"

fun sniff_loop :: "('w, 'd) env \<Rightarrow> string \<Rightarrow> string list \<Rightarrow> 'w sniff_state \<Rightarrow> exn option \<times> 'w sniff_state" where
  "sniff_loop E base [] s = (None, s)"
| "sniff_loop E base (link # links) s =
     (case sniff_step E base link s of
        (Some e, s1) \<Rightarrow> (Some e, s1)
      | (None, s1) \<Rightarrow> sniff_loop E base links s1)"

definition sniff_start :: "'w \<Rightarrow> 'w sniff_state" where
  \<comment> \<open>the variables of \<^verbatim>\<open>sniff_related_urls\<close> when its loop starts\<close>
  "sniff_start w = \<lparr>unique = {}, discovered = [], world = w, trace = []\<rparr>"

definition raw_urls :: "('w, 'd) env \<Rightarrow> string \<Rightarrow> string \<Rightarrow> string list" where
  "raw_urls E html_text visible_text =
     concat (map (\<lambda>p. re_findall E p (html_text @ visible_text)) extraction_patterns)"

definition sniff_run :: "('w, 'd) env \<Rightarrow> string \<Rightarrow> string \<Rightarrow> string \<Rightarrow> 'w \<Rightarrow> exn option \<times> 'w sniff_state" where
  \<comment> \<open>the whole body of \<^verbatim>\<open>sniff_related_urls\<close>, with the final state of its variables\<close>
  "sniff_run E base html_text visible_text w =
     sniff_loop E base (raw_urls E html_text visible_text) (sniff_start w)"

definition sniff_related_urls ::
  "('w, 'd) env \<Rightarrow> string \<Rightarrow> string \<Rightarrow> string \<Rightarrow> 'w \<Rightarrow> (exn + (string \<times> string) list) \<times> 'w" where
  "sniff_related_urls E base html_text visible_text w =
     (case sniff_run E base html_text visible_text w of
        (Some e, s) \<Rightarrow> (Inl e, world s)
      | (None, s) \<Rightarrow> (Inr (discovered s), world s))"

definition fetched :: "event list \<Rightarrow> string list" where
  \<comment> \<open>the URLs requested over HTTP, in order\<close>
  "fetched evs = concat (map (\<lambda>ev. case ev of Fetched u \<Rightarrow> [u] | Rendered _ \<Rightarrow> []) evs)"

definition event_url :: "event \<Rightarrow> string" where
  "event_url ev = (case ev of Fetched u \<Rightarrow> u | Rendered u \<Rightarrow> u)"

section \<open>Quiz solver core\<close>

definition is_sep :: "char \<Rightarrow> bool" where
  "is_sep c \<longleftrightarrow> c = CHR '':'' \<or> c = CHR '' ''"

definition cutoff_match_here :: "string \<Rightarrow> string option" where
  \<comment> \<open>group 1 of the pattern \<^verbatim>\<open>[Cc]utoff[: ]+(\d+)\<close> matched at the start of the text. The two
      repeated classes are disjoint and neither meets the letter before it, so the greedy match
      is the only one: the longest run of separators, then the longest run of digits.\<close>
  "cutoff_match_here s =
     (case s of
        [] \<Rightarrow> None
      | c # rest \<Rightarrow>
          if (c = CHR ''C'' \<or> c = CHR ''c'') \<and> prefix ''utoff'' rest then
            (let after = drop 5 rest;
                 seps = takeWhile is_sep after;
                 digits = takeWhile is_decimal (dropWhile is_sep after)
             in if seps \<noteq> [] \<and> digits \<noteq> [] then Some digits else None)
          else None)"

fun re_search_cutoff :: "string \<Rightarrow> string option" where
  \<comment> \<open>\<^verbatim>\<open>re.search\<close>: the match at the leftmost position that has one\<close>
  "re_search_cutoff [] = cutoff_match_here []"
| "re_search_cutoff (c # cs) =
     (case cutoff_match_here (c # cs) of Some g \<Rightarrow> Some g | None \<Rightarrow> re_search_cutoff cs)"

definition int_of_digits :: "string \<Rightarrow> int" where
  \<comment> \<open>the value of a run of decimal digits\<close>
  "int_of_digits ds = foldl (\<lambda>a c. 10 * a + (int (of_char c) - 48)) 0 ds"

definition int_max_str_digits :: nat where
  \<comment> \<open>the interpreter's default limit on the length of a digit string given to \<^verbatim>\<open>int\<close>\<close>
  "int_max_str_digits = 4300"

definition py_int :: "string \<Rightarrow> exn + int" where
  \<comment> \<open>\<^verbatim>\<open>int\<close> on a run of decimal digits: a run longer than the limit raises \<^verbatim>\<open>ValueError\<close>\<close>
  "py_int ds = (if length ds > int_max_str_digits then Inl ValueError else Inr (int_of_digits ds))"

definition extract_cutoff :: "string \<Rightarrow> exn + int option" where
  \<comment> \<open>\<^verbatim>\<open>cutoff_val\<close> of \<^verbatim>\<open>handle_quiz\<close>; \<open>Inl e\<close> is an exception raised by the conversion\<close>
  "extract_cutoff page_text =
     (case re_search_cutoff page_text of
        None \<Rightarrow> Inr None
      | Some g \<Rightarrow> (case py_int g of Inl e \<Rightarrow> Inl e | Inr n \<Rightarrow> Inr (Some n)))"

definition cutoff_arg :: "int option \<Rightarrow> 'f pyval" where
  "cutoff_arg c = (case c of None \<Rightarrow> PNone | Some i \<Rightarrow> PInt i)"

definition qualifies :: "string \<times> string \<Rightarrow> bool" where
  \<comment> \<open>\<^verbatim>\<open>".csv" in link or any(ch.isdigit() for ch in body[:80])\<close>\<close>
  "qualifies item \<longleftrightarrow> contains ''.csv'' (fst item) \<or> (\<exists>ch \<in> set (take 80 (snd item)). isdigit ch)"

fun numeric_walk ::
  "'f floats \<Rightarrow> int option \<Rightarrow> 'f pyval \<Rightarrow> (string \<times> string) list \<Rightarrow> exn + 'f pyval" where
  \<comment> \<open>the loop over \<^verbatim>\<open>assets.items()\<close>; the third argument is \<^verbatim>\<open>precomputed\<close>\<close>
  "numeric_walk F cutoff_val precomputed [] = Inr precomputed"
| "numeric_walk F cutoff_val precomputed (item # items) =
     (if qualifies item then
        (case csv_sum F (PStr (snd item)) (cutoff_arg cutoff_val) of
           Inl e \<Rightarrow> Inl e
         | Inr r \<Rightarrow> numeric_walk F cutoff_val r items)
      else numeric_walk F cutoff_val precomputed items)"

definition precompute ::
  "'f floats \<Rightarrow> int option \<Rightarrow> (string \<times> string) list \<Rightarrow> exn + 'f pyval" where
  "precompute F cutoff_val assets = numeric_walk F cutoff_val PNone assets"

section \<open>Sample collaborators\<close>

datatype sample_float = Fin real | NaN

definition sample_float_of :: "string \<Rightarrow> exn + sample_float" where
  \<comment> \<open>what \<^verbatim>\<open>float\<close> returns on "nan", on "0.1" and "0.2" (the exact values of the two floats) and
      on a run of at most 15 digits; the interpreter accepts more texts than this sample\<close>
  "sample_float_of s =
     (if s = ''nan'' then Inr NaN
      else if s = ''0.1'' then Inr (Fin (3602879701896397 / 36028797018963968))
      else if s = ''0.2'' then Inr (Fin (3602879701896397 / 18014398509481984))
      else if s = [] \<or> length s > 15 then Inl ValueError
      else case digits_value 0 s of Some n \<Rightarrow> Inr (Fin (real n)) | None \<Rightarrow> Inl ValueError)"

definition sample_gt :: "sample_float \<Rightarrow> real \<Rightarrow> bool" where
  \<comment> \<open>comparisons are exact, and false on NaN\<close>
  "sample_gt n t = (case n of Fin r \<Rightarrow> r > t | NaN \<Rightarrow> False)"

definition sample_sum :: "sample_float list \<Rightarrow> sample_float" where
  \<comment> \<open>what \<^verbatim>\<open>sum\<close> returns on a list that holds NaN, on the floats of "0.1" and "0.2" (the sum
      rounded to a float) and on whole numbers whose sums are small enough to be exact\<close>
  "sample_sum xs =
     (if NaN \<in> set xs then NaN
      else if xs = [Fin (3602879701896397 / 36028797018963968),
                    Fin (3602879701896397 / 18014398509481984)]
      then Fin (1351079888211149 / 4503599627370496)
      else Fin (sum_list (map (\<lambda>x. case x of Fin r \<Rightarrow> r | NaN \<Rightarrow> 0) xs)))"

definition sample_floats :: "sample_float floats" where
  "sample_floats =
     \<lparr>float_of = sample_float_of,
      float_gt_int = (\<lambda>n i. sample_gt n (of_int i)),
      float_gt_float = (\<lambda>n t. case t of Fin r \<Rightarrow> sample_gt n r | NaN \<Rightarrow> False),
      float_sum = sample_sum\<rparr>"

definition demo_findall :: "pattern \<Rightarrow> string \<Rightarrow> string list" where
  \<comment> \<open>the candidates of a sample page, all found by the first pattern\<close>
  "demo_findall p text =
     (if p = HrefPat
      then [''/data.csv'', ''#top'', ''/submit'', ''/data.csv'', ''http://h/data.csv'',
            ''app.js'', ''/big'', ''httpdocs/page'']
      else [])"

definition demo_http_get :: "string \<Rightarrow> nat \<Rightarrow> (exn + string) \<times> nat" where
  \<comment> \<open>a sample server; the world counts the requests made\<close>
  "demo_http_get u w =
     (if \<not> prefix ''http://'' u then Inl RequestException
      else if u = ''http://h/app.js'' then Inr ''<script src=x></script>''
      else if u = ''http://h/big'' then Inr (replicate 20000 CHR ''7'')
      else Inr ''7,8,9'', Suc w)"

definition demo_env :: "(nat, nat) env" where
  \<comment> \<open>sample collaborators for the base URL \<^verbatim>\<open>http://h/quiz\<close>; the browser fails to load one page\<close>
  "demo_env =
     \<lparr>build_driver = (\<lambda>w. (Inr 0, w)),
      driver_get = (\<lambda>d u w. (if u = ''http://h/down'' then Some WebDriverException else None, w)),
      body_text = (\<lambda>d w. (Inr ''code 123'', w)),
      driver_quit = (\<lambda>d w. (None, w)),
      re_findall = demo_findall,
      urlparse = (\<lambda>b. Inr \<lparr>scheme = ''http'', netloc = ''h''\<rparr>),
      urljoin = (\<lambda>b l. Inr (''http://h/'' @ l)),
      http_get = demo_http_get\<rparr>"

definition no_browser_env :: "(nat, nat) env" where
  \<comment> \<open>the same, on a host where the browser cannot be started\<close>
  "no_browser_env = demo_env\<lparr>build_driver := (\<lambda>w. (Inl WebDriverException, w))\<rparr>"

definition demo_final :: "nat sniff_state" where
  \<comment> \<open>the state in which discovery ends on the sample page\<close>
  "demo_final =
     \<lparr>unique = {''httpdocs/page'', ''/big'', ''app.js'', ''http://h/data.csv'', ''/submit'',
                ''/data.csv''},
      discovered = [(''http://h/data.csv'', ''7,8,9''), (''http://h/app.js'', ''code 123''),
                    (''http://h/big'', replicate 12000 CHR ''7'')],
      world = 5,
      trace = [Fetched ''http://h/data.csv'', Fetched ''http://h/data.csv'',
               Fetched ''http://h/app.js'', Rendered ''http://h/app.js'',
               Fetched ''http://h/big'', Fetched ''httpdocs/page'']\<rparr>"

section \<open>Invariants of discovery\<close>

definition stored_ok :: "(string \<times> string) list \<Rightarrow> bool" where
  "stored_ok d \<longleftrightarrow> distinct (map fst d)
     \<and> (\<forall>item\<in>set d. \<not> contains ''submit'' (lower (fst item)) \<and> length (snd item) \<le> 12000)"

definition trace_ok :: "event list \<Rightarrow> bool" where
  "trace_ok evs \<longleftrightarrow> (\<forall>ev\<in>set evs. \<not> contains ''submit'' (lower (event_url ev)))"

definition fetch_origin :: "('w, 'd) env \<Rightarrow> string \<Rightarrow> 'w sniff_state \<Rightarrow> string list \<Rightarrow> bool" where
  \<comment> \<open>the requests made so far come one each from distinct candidates already seen\<close>
  "fetch_origin E base s ls \<longleftrightarrow> distinct ls \<and> set ls \<subseteq> unique s
     \<and> map (resolve_link E base) ls = map Inr (fetched (trace s))"

definition fetch_target :: "('w, 'd) env \<Rightarrow> string \<Rightarrow> string \<Rightarrow> string option" where
  \<comment> \<open>the URL at which a candidate is requested when its turn comes and it is new: none for a
      fragment or script link, for a link that does not resolve, and for a resolved URL that
      contains "submit"\<close>
  "fetch_target E base link =
     (if prefix ''#'' link \<or> prefix ''javascript'' link then None
      else case resolve_link E base link of
             Inl e \<Rightarrow> None
           | Inr final \<Rightarrow> if contains ''submit'' (lower final) then None else Some final)"

definition fetch_exact :: "('w, 'd) env \<Rightarrow> string \<Rightarrow> 'w sniff_state \<Rightarrow> string list \<Rightarrow> bool" where
  \<comment> \<open>the requests made so far are those of exactly the candidates seen that have a target\<close>
  "fetch_exact E base s ls \<longleftrightarrow> distinct ls
     \<and> set ls = {l \<in> unique s. fetch_target E base l \<noteq> None}
     \<and> map (fetch_target E base) ls = map Some (fetched (trace s))"

section \<open>Facts about the string primitives and the aggregation\<close>
























lemma keep_above_Inl: "keep_above F t ns = Inl e \<Longrightarrow> e = TypeError"
  by (induction ns arbitrary: e)
     (auto simp: float_gt_def split: pyval.splits sum.splits)

lemma csv_sum_body_Inl: "csv_sum_body F d t = Inl e \<Longrightarrow> is_Exception e"
  by (auto simp: csv_sum_body_def is_Exception_def Let_def
      split: pyval.splits sum.splits if_splits dest: keep_above_Inl)

lemma csv_sum_Inr: "\<exists>r. csv_sum F d t = Inr r"
  by (cases "csv_sum_body F d t") (auto simp: csv_sum_def dest: csv_sum_body_Inl)


lemma sample_float_of_simps:
  "sample_float_of [] = Inl ValueError"
  "sample_float_of ''1'' = Inr (Fin 1)" "sample_float_of ''2'' = Inr (Fin 2)"
  "sample_float_of ''3'' = Inr (Fin 3)" "sample_float_of ''4'' = Inr (Fin 4)"
  "sample_float_of ''5'' = Inr (Fin 5)" "sample_float_of ''10'' = Inr (Fin 10)"
  "sample_float_of ''20'' = Inr (Fin 20)"
  "sample_float_of ''7'' = Inr (Fin 7)" "sample_float_of ''8'' = Inr (Fin 8)"
  "sample_float_of ''9'' = Inr (Fin 9)"
  "sample_float_of ''a'' = Inl ValueError" "sample_float_of ''b'' = Inl ValueError"
  "sample_float_of ''c'' = Inl ValueError" "sample_float_of ''x'' = Inl ValueError"
  "sample_float_of ''code 123'' = Inl ValueError"
  "sample_float_of ''nan'' = Inr NaN"
  "sample_float_of ''0.1'' = Inr (Fin (3602879701896397 / 36028797018963968))"
  "sample_float_of ''0.2'' = Inr (Fin (3602879701896397 / 18014398509481984))"
  by (simp_all add: sample_float_of_def)

lemmas sample_defs = sample_floats_def sample_float_of_simps sample_gt_def sample_sum_def
  py_sum_def strip_def isspace_def

section \<open>Claims about the CSV aggregation\<close>




text \<open>
  C8. \<open>csv_sum\<close> never lets an exception out, whatever values it is given and whatever
  \<^verbatim>\<open>float\<close> raises: it always returns. When the statements of its body fail as a whole (the
  data is not a text, the threshold cannot be compared with a number) it returns \<^verbatim>\<open>None\<close>; a
  cell that does not read as a number is passed over and changes nothing.
\<close>

theorem csv_sum_never_raises:
  "(\<exists>r. csv_sum F data threshold = Inr r)
   \<and> (isl (csv_sum_body F data threshold) \<longrightarrow> csv_sum F data threshold = Inr PNone)
   \<and> (isl (to_float (strip cell))
        \<longrightarrow> collect_cells to_float nums (cell # cells) = collect_cells to_float nums cells)"
proof -
  have "csv_sum F data threshold = Inr PNone" if "isl (csv_sum_body F data threshold)"
  proof -
    from that obtain e where e: "csv_sum_body F data threshold = Inl e"
      by (auto simp: isl_def)
    then have "is_Exception e" by (rule csv_sum_body_Inl)
    with e show ?thesis by (simp add: csv_sum_def)
  qed
  moreover have "collect_cells to_float nums (cell # cells) = collect_cells to_float nums cells"
    if "isl (to_float (strip cell))"
    using that by (auto simp: isl_def)
  ultimately show ?thesis using csv_sum_Inr [of F data threshold] by blast
qed

theorem csv_sum_never_raises_witness:
  "isl (csv_sum_body sample_floats (PStr ''1,x'') (PStr ''5''))
   \<and> csv_sum sample_floats (PStr ''1,x'') (PStr ''5'') = Inr PNone
   \<and> isl (csv_sum_body sample_floats PNone PNone)
   \<and> csv_sum sample_floats PNone PNone = Inr PNone
   \<and> isl (float_of sample_floats (strip ''x''))
   \<and> collect_cells (float_of sample_floats) [Fin 7] [''x'', ''2'']
       = collect_cells (float_of sample_floats) [Fin 7] [''2'']"
proof -
  have a: "isl (csv_sum_body sample_floats (PStr ''1,x'') (PStr ''5''))"
    by (simp add: csv_sum_body_def sample_defs float_gt_def)
  have b: "isl (csv_sum_body sample_floats PNone PNone)"
    by (simp add: csv_sum_body_def)
  have c: "isl (float_of sample_floats (strip ''x''))"
    by (simp add: sample_defs)
  from a b c
    csv_sum_never_raises [of sample_floats "PStr ''1,x''" "PStr ''5''" "float_of sample_floats"
      "''x''" "[Fin 7]" "[''2'']"]
    csv_sum_never_raises [of sample_floats PNone PNone "float_of sample_floats"
      "''x''" "[Fin 7]" "[''2'']"]
  show ?thesis by simp
qed

section \<open>Claims about the quiz solver core\<close>

lemma numeric_walk_last:
  "numeric_walk F c pre items =
     (if filter qualifies items = [] then Inr pre
      else csv_sum F (PStr (snd (last (filter qualifies items)))) (cutoff_arg c))"
proof (induction items arbitrary: pre)
  case Nil
  show ?case by simp
next
  case (Cons item items)
  show ?case
  proof (cases "qualifies item")
    case False
    then show ?thesis using Cons by simp
  next
    case True
    obtain r where r: "csv_sum F (PStr (snd item)) (cutoff_arg c) = Inr r"
      using csv_sum_Inr by blast
    show ?thesis using True r Cons [of r] by simp
  qed
qed

text \<open>
  C1. The numeric result of the orchestrator is what the walk over the resources, in insertion
  order, leaves in \<^verbatim>\<open>precomputed\<close>: a resource qualifies when its URL contains ".csv" or the
  first 80 characters of its body hold a digit, every qualifying resource overwrites the
  result with \<open>csv_sum\<close> of its body and the cutoff, and the walk never stops early. So the
  result is \<open>csv_sum\<close> on the last qualifying resource, and it is absent when none qualifies.
\<close>

theorem precompute_last_qualifying:
  "precompute F cutoff_val assets =
     (if filter qualifies assets = [] then Inr PNone
      else csv_sum F (PStr (snd (last (filter qualifies assets)))) (cutoff_arg cutoff_val))"
  by (simp add: precompute_def numeric_walk_last)

theorem precompute_last_qualifying_witness:
  "precompute sample_floats (Some 7)
     [(''http://h/data.csv'', ''7,8,9''), (''http://h/app.js'', ''code 123''), (''http://h/x'', ''none'')]
     = csv_sum sample_floats (PStr ''code 123'') (PInt 7)
   \<and> precompute sample_floats (Some 7) [(''http://h/x'', ''none'')] = Inr PNone"
proof -
  have q: "qualifies (''http://h/data.csv'', ''7,8,9'')" "qualifies (''http://h/app.js'', ''code 123'')"
    "\<not> qualifies (''http://h/x'', ''none'')"
    by (simp_all add: qualifies_def isdigit_def)
  show ?thesis
    using precompute_last_qualifying [of sample_floats "Some 7"
        "[(''http://h/data.csv'', ''7,8,9''), (''http://h/app.js'', ''code 123''), (''http://h/x'', ''none'')]"]
      precompute_last_qualifying [of sample_floats "Some 7" "[(''http://h/x'', ''none'')]"] q
    by (simp add: cutoff_arg_def)
qed

lemma decimal_not_sep: "is_decimal d \<Longrightarrow> \<not> is_sep d"
  by (auto simp: is_decimal_def is_sep_def)

lemma cutoff_match_hereI:
  assumes c: "c = CHR ''C'' \<or> c = CHR ''c''"
    and seps: "seps \<noteq> []" "\<forall>x\<in>set seps. is_sep x"
    and d: "is_decimal d"
  shows "cutoff_match_here (c # ''utoff'' @ seps @ d # r) = Some (takeWhile is_decimal (d # r))"
proof -
  have nd: "\<not> is_sep d" using d by (rule decimal_not_sep)
  have t: "takeWhile is_sep (seps @ d # r) = seps"
    using seps nd by (simp add: takeWhile_append2)
  have dr: "dropWhile is_sep (seps @ d # r) = d # r"
    using seps nd by (simp add: dropWhile_append2)
  show ?thesis using c seps d t dr
    by (simp add: cutoff_match_here_def Let_def)
qed

lemma cutoff_match_hereD:
  assumes "cutoff_match_here s = Some g"
  shows "\<exists>c seps d r. s = c # ''utoff'' @ seps @ d # r \<and> (c = CHR ''C'' \<or> c = CHR ''c'')
           \<and> seps \<noteq> [] \<and> (\<forall>x\<in>set seps. is_sep x) \<and> is_decimal d
           \<and> g = takeWhile is_decimal (d # r)"
proof -
  from assms obtain c rest where s: "s = c # rest" and c: "c = CHR ''C'' \<or> c = CHR ''c''"
    and p: "prefix ''utoff'' rest"
    by (auto simp: cutoff_match_here_def split: list.splits if_splits)
  from p obtain after where rest: "rest = ''utoff'' @ after" by (auto simp: prefix_def)
  let ?seps = "takeWhile is_sep after"
  let ?tail = "dropWhile is_sep after"
  from assms s c rest have ne: "?seps \<noteq> []" and dg: "takeWhile is_decimal ?tail \<noteq> []"
    and g: "g = takeWhile is_decimal ?tail"
    by (auto simp: cutoff_match_here_def Let_def split: if_splits)
  from dg obtain d r where tail: "?tail = d # r" and d: "is_decimal d"
    by (cases ?tail) (auto split: if_splits)
  have "after = ?seps @ d # r" using tail takeWhile_dropWhile_id [of is_sep after] by simp
  moreover have "\<forall>x\<in>set ?seps. is_sep x" by (auto dest: set_takeWhileD)
  ultimately show ?thesis using s c rest ne d g tail
    by (intro exI [of _ c] exI [of _ ?seps] exI [of _ d] exI [of _ r]) simp
qed

lemma cutoff_match_here_extend:
  assumes q: "q \<noteq> []" and c': "c' = CHR ''C'' \<or> c' = CHR ''c''"
    and m: "cutoff_match_here (q @ c' # t) = Some g"
  shows "cutoff_match_here q = Some g"
proof -
  from cutoff_match_hereD [OF m] obtain c seps d r where
    eq: "q @ c' # t = c # ''utoff'' @ seps @ d # r" and c: "c = CHR ''C'' \<or> c = CHR ''c''"
    and seps: "seps \<noteq> []" "\<forall>x\<in>set seps. is_sep x" and d: "is_decimal d"
    and g: "g = takeWhile is_decimal (d # r)"
    by blast
  let ?L = "c # ''utoff'' @ seps @ [d]"
  have nc: "c' \<notin> set (''utoff'' @ seps @ [d])"
    using c' seps d by (auto simp: is_sep_def is_decimal_def)
  have nd: "\<not> is_decimal c'" using c' by (auto simp: is_decimal_def)
  from eq have "q @ c' # t = ?L @ r" by simp
  then obtain us where "(q = ?L @ us \<and> us @ c' # t = r) \<or> (q @ us = ?L \<and> c' # t = us @ r)"
    unfolding append_eq_append_conv2 by blast
  then have "\<exists>vs. q = ?L @ vs \<and> r = vs @ c' # t"
  proof (elim disjE conjE)
    assume "q = ?L @ us" "us @ c' # t = r"
    then show ?thesis by blast
  next
    assume a: "q @ us = ?L" "c' # t = us @ r"
    show ?thesis
    proof (cases us)
      case Nil
      with a show ?thesis by auto
    next
      case (Cons u us')
      with a have "u = c'" by simp
      with a Cons have "q @ c' # us' = ?L" by simp
      with q obtain q' where "q' @ c' # us' = ''utoff'' @ seps @ [d]"
        by (cases q) auto
      then have "c' \<in> set (''utoff'' @ seps @ [d])"
        by (metis in_set_conv_decomp)
      with nc show ?thesis by blast
    qed
  qed
  then obtain vs where qv: "q = c # ''utoff'' @ seps @ d # vs" and r: "r = vs @ c' # t" by auto
  have "takeWhile is_decimal (d # r) = takeWhile is_decimal (d # vs)"
    using r nd takeWhile_tail [of is_decimal c' "d # vs" t] by simp
  then show ?thesis using cutoff_match_hereI [OF c seps d, of vs] qv g by simp
qed

lemma re_search_cutoff_None_Cons:
  "re_search_cutoff (x # xs) = None \<longleftrightarrow> cutoff_match_here (x # xs) = None \<and> re_search_cutoff xs = None"
  by (auto split: option.splits)

lemma cutoff_match_here_Nil: "cutoff_match_here [] = None"
  by (simp add: cutoff_match_here_def)

lemma re_search_cutoff_skip:
  assumes c': "c' = CHR ''C'' \<or> c' = CHR ''c''"
  shows "re_search_cutoff pre = None \<Longrightarrow> re_search_cutoff (pre @ c' # t) = re_search_cutoff (c' # t)"
proof (induction pre)
  case Nil
  show ?case by simp
next
  case (Cons x p)
  from Cons.prems have n: "cutoff_match_here (x # p) = None" and p: "re_search_cutoff p = None"
    unfolding re_search_cutoff_None_Cons by blast+
  have "cutoff_match_here ((x # p) @ c' # t) = None"
  proof (cases "cutoff_match_here ((x # p) @ c' # t)")
    case (Some g)
    then have "cutoff_match_here (x # p) = Some g"
      using cutoff_match_here_extend [OF _ c', of "x # p" t g] by simp
    with n show ?thesis by simp
  qed simp
  then show ?case using Cons.IH [OF p] by simp
qed

lemma re_search_cutoff_here:
  "cutoff_match_here s = Some g \<Longrightarrow> re_search_cutoff s = Some g"
  by (cases s) (auto simp: cutoff_match_here_Nil)

lemma re_search_cutoff_SomeD:
  "re_search_cutoff s = Some g \<Longrightarrow> \<exists>pre t. s = pre @ t \<and> cutoff_match_here t = Some g"
proof (induction s)
  case Nil
  then show ?case by (simp add: cutoff_match_here_Nil)
next
  case (Cons x xs)
  show ?case
  proof (cases "cutoff_match_here (x # xs)")
    case (Some h)
    with Cons.prems have "h = g" by simp
    with Some show ?thesis by (metis append_Nil)
  next
    case None
    with Cons.prems have "re_search_cutoff xs = Some g" by simp
    from Cons.IH [OF this] obtain pre t where "xs = pre @ t" "cutoff_match_here t = Some g" by blast
    then show ?thesis by (metis append_Cons)
  qed
qed

lemma extract_cutoff_None: "extract_cutoff s = Inr None \<longleftrightarrow> re_search_cutoff s = None"
  by (simp add: extract_cutoff_def split: option.splits sum.splits)

lemma int_of_digits_42: "int_of_digits ''42'' = 42"
  by (simp add: int_of_digits_def)

lemma re_search_cutoff_phrase:
  assumes "re_search_cutoff text = Some g"
  shows "\<exists>pre c seps post. text = pre @ c # ''utoff'' @ seps @ g @ post
            \<and> (c = CHR ''C'' \<or> c = CHR ''c'')
            \<and> seps \<noteq> [] \<and> (\<forall>x\<in>set seps. is_sep x) \<and> g \<noteq> [] \<and> (\<forall>x\<in>set g. is_decimal x)"
proof -
  from re_search_cutoff_SomeD [OF assms] obtain pre t where
    t: "text = pre @ t" "cutoff_match_here t = Some g" by blast
  from cutoff_match_hereD [OF t(2)] obtain c seps d r where
    x: "t = c # ''utoff'' @ seps @ d # r" "c = CHR ''C'' \<or> c = CHR ''c''"
       "seps \<noteq> []" "\<forall>x\<in>set seps. is_sep x" "is_decimal d" "g = takeWhile is_decimal (d # r)"
    by blast
  let ?post = "dropWhile is_decimal (d # r)"
  have "d # r = g @ ?post" using x(6) by simp
  moreover have "g \<noteq> []" using x(5,6) by simp
  moreover have "\<forall>y\<in>set g. is_decimal y" using x(6) by (auto dest: set_takeWhileD)
  ultimately show ?thesis using t(1) x(1-4)
    by (intro exI [of _ pre] exI [of _ c] exI [of _ seps] exI [of _ ?post]) simp
qed

text \<open>
  C4 (as the code has it). The cutoff is read with one search for the word "Cutoff" or
  "cutoff" (only the first letter may be in either case; no other spelling is recognised),
  followed by one or more colons or spaces and a run of digits; the leftmost match counts. A
  page text that has no match before the phrase, then "Cutoff: 42" or "cutoff: 42", then no
  further digit, gives the cutoff 42, and in general the value of the digits of the leftmost
  match when they are at most 4300; a longer run of digits makes the conversion raise
  \<^verbatim>\<open>ValueError\<close>. Whenever a cutoff is extracted the text holds such a phrase, and a text
  without one leaves the cutoff unset.
\<close>

theorem extract_cutoff_first_match:
  "((w = ''Cutoff'' \<or> w = ''cutoff'') \<and> extract_cutoff pre = Inr None
      \<and> seps \<noteq> [] \<and> (\<forall>x\<in>set seps. is_sep x) \<and> ds \<noteq> [] \<and> (\<forall>x\<in>set ds. is_decimal x)
      \<and> (post = [] \<or> \<not> is_decimal (hd post))
     \<longrightarrow> extract_cutoff (pre @ w @ seps @ ds @ post)
           = (if length ds \<le> 4300 then Inr (Some (int_of_digits ds)) else Inl ValueError))
   \<and> ((w = ''Cutoff'' \<or> w = ''cutoff'') \<and> extract_cutoff pre = Inr None
      \<and> (post = [] \<or> \<not> is_decimal (hd post))
     \<longrightarrow> extract_cutoff (pre @ w @ '': 42'' @ post) = Inr (Some 42))
   \<and> (extract_cutoff text = Inr (Some n)
     \<longrightarrow> (\<exists>pre c seps ds post. text = pre @ c # ''utoff'' @ seps @ ds @ post
            \<and> (c = CHR ''C'' \<or> c = CHR ''c'')
            \<and> seps \<noteq> [] \<and> (\<forall>x\<in>set seps. is_sep x) \<and> ds \<noteq> [] \<and> (\<forall>x\<in>set ds. is_decimal x)
            \<and> n = int_of_digits ds))
   \<and> (\<not> (\<exists>pre c seps ds post. text = pre @ c # ''utoff'' @ seps @ ds @ post
            \<and> (c = CHR ''C'' \<or> c = CHR ''c'')
            \<and> seps \<noteq> [] \<and> (\<forall>x\<in>set seps. is_sep x) \<and> ds \<noteq> [] \<and> (\<forall>x\<in>set ds. is_decimal x))
     \<longrightarrow> extract_cutoff text = Inr None)"
proof -
  have gen: "extract_cutoff (pre @ w @ seps @ ds @ post)
               = (if length ds \<le> 4300 then Inr (Some (int_of_digits ds)) else Inl ValueError)"
    if w: "w = ''Cutoff'' \<or> w = ''cutoff''" and pre: "extract_cutoff pre = Inr None"
      and seps: "seps \<noteq> []" "\<forall>x\<in>set seps. is_sep x"
      and ds: "ds \<noteq> []" "\<forall>x\<in>set ds. is_decimal x"
      and post: "post = [] \<or> \<not> is_decimal (hd post)"
    for w pre seps ds post
  proof -
    from w obtain c where wc: "w = c # ''utoff''" and c: "c = CHR ''C'' \<or> c = CHR ''c''" by auto
    from ds obtain d r where dr: "ds = d # r" and d: "is_decimal d" by (cases ds) auto
    have tw: "takeWhile is_decimal (ds @ post) = ds"
    proof (cases post)
      case Nil
      with ds show ?thesis by simp
    next
      case (Cons y ys)
      with post have "\<not> is_decimal y" by simp
      with ds Cons show ?thesis by (simp add: takeWhile_append2)
    qed
    have "cutoff_match_here (c # ''utoff'' @ seps @ d # (r @ post)) = Some (takeWhile is_decimal (d # (r @ post)))"
      using c seps d by (rule cutoff_match_hereI)
    then have here: "cutoff_match_here (w @ seps @ ds @ post) = Some ds"
      using wc dr tw by simp
    have "re_search_cutoff (pre @ c # (''utoff'' @ seps @ ds @ post))
            = re_search_cutoff (c # (''utoff'' @ seps @ ds @ post))"
      using c pre by (intro re_search_cutoff_skip) (simp_all add: extract_cutoff_None)
    also have "\<dots> = Some ds" using here wc by (intro re_search_cutoff_here) simp
    finally show ?thesis using wc
      by (simp add: extract_cutoff_def py_int_def int_max_str_digits_def)
  qed
  have ex: "extract_cutoff (pre @ w @ '': 42'' @ post) = Inr (Some 42)"
    if "w = ''Cutoff'' \<or> w = ''cutoff''" "extract_cutoff pre = Inr None"
       "post = [] \<or> \<not> is_decimal (hd post)"
    using gen [of w pre "'': ''" "''42''" post] that
    by (simp add: is_sep_def is_decimal_def int_of_digits_42)
  have conv: "\<exists>pre c seps ds post. text = pre @ c # ''utoff'' @ seps @ ds @ post
            \<and> (c = CHR ''C'' \<or> c = CHR ''c'')
            \<and> seps \<noteq> [] \<and> (\<forall>x\<in>set seps. is_sep x) \<and> ds \<noteq> [] \<and> (\<forall>x\<in>set ds. is_decimal x)
            \<and> n = int_of_digits ds"
    if "extract_cutoff text = Inr (Some n)"
  proof -
    from that obtain g where g: "re_search_cutoff text = Some g" and n: "n = int_of_digits g"
      by (auto simp: extract_cutoff_def py_int_def split: option.splits if_splits)
    from re_search_cutoff_phrase [OF g] n show ?thesis by blast
  qed
  have none: "extract_cutoff text = Inr None"
    if "\<not> (\<exists>pre c seps ds post. text = pre @ c # ''utoff'' @ seps @ ds @ post
            \<and> (c = CHR ''C'' \<or> c = CHR ''c'')
            \<and> seps \<noteq> [] \<and> (\<forall>x\<in>set seps. is_sep x) \<and> ds \<noteq> [] \<and> (\<forall>x\<in>set ds. is_decimal x))"
  proof (cases "re_search_cutoff text")
    case None
    then show ?thesis by (simp add: extract_cutoff_def)
  next
    case (Some g)
    from re_search_cutoff_phrase [OF Some] that show ?thesis by blast
  qed
  show ?thesis
    by (intro conjI impI; (elim conjE)?; (rule gen | rule ex | rule conv | rule none); assumption)
qed

theorem extract_cutoff_first_match_witness:
  "extract_cutoff ''Sum the values. '' = Inr None
   \<and> extract_cutoff ''Sum the values. cutoff : 107 or more'' = Inr (Some 107)
   \<and> extract_cutoff (''Cutoff: '' @ replicate 4301 CHR ''7'') = Inl ValueError
   \<and> extract_cutoff ''Sum the values. Cutoff: 42.'' = Inr (Some 42)
   \<and> extract_cutoff ''Cutoff: 7, not Cutoff: 42'' = Inr (Some 7)
   \<and> (\<exists>pre c seps ds post. ''Cutoff: 7, not Cutoff: 42'' = pre @ c # ''utoff'' @ seps @ ds @ post
         \<and> (c = CHR ''C'' \<or> c = CHR ''c'') \<and> seps \<noteq> [] \<and> (\<forall>x\<in>set seps. is_sep x)
         \<and> ds \<noteq> [] \<and> (\<forall>x\<in>set ds. is_decimal x) \<and> 7 = int_of_digits ds)
   \<and> extract_cutoff ''All values'' = Inr None"
proof -
  have p: "extract_cutoff ''Sum the values. '' = Inr None" "extract_cutoff [] = Inr None"
    by (simp_all add: extract_cutoff_def cutoff_match_here_def)
  have s: "extract_cutoff ''Cutoff: 7, not Cutoff: 42'' = Inr (Some 7)"
    by (simp add: extract_cutoff_def cutoff_match_here_def is_sep_def is_decimal_def
        int_of_digits_def py_int_def int_max_str_digits_def)
  have v: "int_of_digits ''107'' = 107" by (simp add: int_of_digits_def)
  note a = extract_cutoff_first_match [of "''cutoff''" "''Sum the values. ''" "'' : ''" "''107''"
      "'' or more''" "''Cutoff: 7, not Cutoff: 42''" 7]
  note b = extract_cutoff_first_match [of "''Cutoff''" "''Sum the values. ''" "'' : ''" "''107''"
      "''.''" "''All values''" 7]
  note c = extract_cutoff_first_match [of "''Cutoff''" "[]" "'': ''" "replicate 4301 CHR ''7''"
      "[]" "''All values''" 7]
  have "extract_cutoff ''Sum the values. cutoff : 107 or more'' = Inr (Some 107)"
    using a p v by (simp add: is_sep_def is_decimal_def)
  moreover have "extract_cutoff (''Cutoff: '' @ replicate 4301 CHR ''7'') = Inl ValueError"
    using c p by (simp add: is_sep_def is_decimal_def)
  moreover have "extract_cutoff ''Sum the values. Cutoff: 42.'' = Inr (Some 42)"
    using b p by (simp add: is_decimal_def)
  moreover have "\<exists>pre c seps ds post. ''Cutoff: 7, not Cutoff: 42'' = pre @ c # ''utoff'' @ seps @ ds @ post
         \<and> (c = CHR ''C'' \<or> c = CHR ''c'') \<and> seps \<noteq> [] \<and> (\<forall>x\<in>set seps. is_sep x)
         \<and> ds \<noteq> [] \<and> (\<forall>x\<in>set ds. is_decimal x) \<and> 7 = int_of_digits ds"
    using a s by blast
  moreover have "extract_cutoff ''All values'' = Inr None"
  proof -
    have "\<not> (\<exists>pre c seps ds post. ''All values'' = pre @ c # ''utoff'' @ seps @ ds @ post
            \<and> (c = CHR ''C'' \<or> c = CHR ''c'')
            \<and> seps \<noteq> [] \<and> (\<forall>x\<in>set seps. is_sep x) \<and> ds \<noteq> [] \<and> (\<forall>x\<in>set ds. is_decimal x))"
    proof
      assume "\<exists>pre c seps ds post. ''All values'' = pre @ c # ''utoff'' @ seps @ ds @ post
            \<and> (c = CHR ''C'' \<or> c = CHR ''c'')
            \<and> seps \<noteq> [] \<and> (\<forall>x\<in>set seps. is_sep x) \<and> ds \<noteq> [] \<and> (\<forall>x\<in>set ds. is_decimal x)"
      then obtain pre c seps ds post where
        "''All values'' = pre @ c # ''utoff'' @ seps @ ds @ post" by blast
      then have "set ''All values'' = set (pre @ c # ''utoff'' @ seps @ ds @ post)" by simp
      then have "CHR ''f'' \<in> set ''All values''" by simp
      then show False by simp
    qed
    with b show ?thesis by blast
  qed
  ultimately show ?thesis using p s by blast
qed

theorem extract_cutoff_upper_case_counterexample:
  "extract_cutoff ''CUTOFF: 42'' = Inr None
   \<and> extract_cutoff ''Cutoff: 7, not Cutoff: 42'' = Inr (Some 7)
   \<and> extract_cutoff ''Cutoff: 421'' = Inr (Some 421)"
  by (simp add: extract_cutoff_def cutoff_match_here_def is_sep_def is_decimal_def
      int_of_digits_def py_int_def int_max_str_digits_def)

section \<open>Claims about the browser rendering\<close>

text \<open>
  C9 (as the code has it). Once the browser instance exists, a failure of the navigation, of
  reading the body or of closing the browser (any exception that \<^verbatim>\<open>except Exception\<close> catches)
  makes \<open>render_dynamic_page\<close> return the empty text, and a run without failure returns the
  text of the body. The instance is built before the \<^verbatim>\<open>try\<close>: when building it fails, that
  exception leaves the function.
\<close>

theorem render_dynamic_page_after_build:
  "(build_driver E w = (Inr d, w1) \<and> render_try E d url w1 = (Inl e, w2) \<and> is_Exception e
      \<longrightarrow> fst (render_dynamic_page E url w) = Inr [])
   \<and> (build_driver E w = (Inr d, w1) \<and> render_try E d url w1 = (Inr text, w2)
      \<longrightarrow> render_dynamic_page E url w = (Inr text, w2))
   \<and> (build_driver E w = (Inl e, w1) \<longrightarrow> render_dynamic_page E url w = (Inl e, w1))"
  by (simp add: render_dynamic_page_def)

theorem render_dynamic_page_after_build_witness:
  "build_driver demo_env 0 = (Inr 0, 0)
   \<and> render_try demo_env 0 ''http://h/down'' 0 = (Inl WebDriverException, 0)
   \<and> is_Exception WebDriverException
   \<and> fst (render_dynamic_page demo_env ''http://h/down'' 0) = Inr []
   \<and> render_try demo_env 0 ''http://h/app.js'' 0 = (Inr ''code 123'', 0)
   \<and> render_dynamic_page demo_env ''http://h/app.js'' 0 = (Inr ''code 123'', 0)
   \<and> build_driver no_browser_env 0 = (Inl WebDriverException, 0)
   \<and> render_dynamic_page no_browser_env ''http://h/down'' 0 = (Inl WebDriverException, 0)"
proof -
  have a: "build_driver demo_env 0 = (Inr 0, 0)" by (simp add: demo_env_def)
  have b: "render_try demo_env 0 ''http://h/down'' 0 = (Inl WebDriverException, 0)"
    by (simp add: render_try_def demo_env_def)
  have c: "is_Exception WebDriverException" by (simp add: is_Exception_def)
  have d: "render_try demo_env 0 ''http://h/app.js'' 0 = (Inr ''code 123'', 0)"
    by (simp add: render_try_def demo_env_def)
  have e: "build_driver no_browser_env 0 = (Inl WebDriverException, 0)"
    by (simp add: no_browser_env_def demo_env_def)
  from a b c
    render_dynamic_page_after_build [of demo_env 0 0 0 "''http://h/down''" WebDriverException 0]
  have r1: "fst (render_dynamic_page demo_env ''http://h/down'' 0) = Inr []" by blast
  from a d
    render_dynamic_page_after_build [of demo_env 0 0 0 "''http://h/app.js''" _ 0 "''code 123''"]
  have r2: "render_dynamic_page demo_env ''http://h/app.js'' 0 = (Inr ''code 123'', 0)" by blast
  from e
    render_dynamic_page_after_build [of no_browser_env 0 _ 0 "''http://h/down''" WebDriverException]
  have r3: "render_dynamic_page no_browser_env ''http://h/down'' 0 = (Inl WebDriverException, 0)"
    by blast
  from a b c d e r1 r2 r3 show ?thesis by blast
qed

theorem render_dynamic_page_build_failure_counterexample:
  "fst (render_dynamic_page no_browser_env ''http://h/quiz'' 0) = Inl WebDriverException"
  by (simp add: render_dynamic_page_def no_browser_env_def demo_env_def)

section \<open>Facts about discovery\<close>


lemma fetch_body_effect:
  assumes "fetch_body E final s = (r, s')"
  shows "unique s' = unique s \<and> discovered s' = discovered s
         \<and> (trace s' = trace s @ [Fetched final] \<or> trace s' = trace s @ [Fetched final, Rendered final])"
  using assms by (auto simp: fetch_body_def split: prod.splits sum.splits if_splits)

lemma sniff_step_effect:
  assumes "sniff_step E base link s = (r, s')"
  shows "s' = s
       \<or> (link \<notin> unique s \<and> unique s' = insert link (unique s)
           \<and> trace s' = trace s \<and> discovered s' = discovered s)
       \<or> (\<exists>final. link \<notin> unique s \<and> unique s' = insert link (unique s)
             \<and> resolve_link E base link = Inr final
             \<and> \<not> contains ''submit'' (lower final)
             \<and> (trace s' = trace s @ [Fetched final]
                 \<or> trace s' = trace s @ [Fetched final, Rendered final])
             \<and> (discovered s' = discovered s
                 \<or> (\<exists>body. discovered s' = AList.update final (take 12000 body) (discovered s))))"
proof (cases "prefix ''#'' link \<or> prefix ''javascript'' link \<or> link \<in> unique s")
  case True
  with assms have "s' = s" by (auto simp: sniff_step_def split: if_splits)
  then show ?thesis by simp
next
  case False
  then have np: "\<not> (prefix ''#'' link \<or> prefix ''javascript'' link)" and nu: "link \<notin> unique s"
    by simp_all
  let ?s1 = "s\<lparr>unique := insert link (unique s)\<rparr>"
  show ?thesis
  proof (cases "resolve_link E base link")
    case (Inl e)
    with np nu assms have "s' = ?s1" by (simp add: sniff_step_def Let_def)
    with nu show ?thesis by simp
  next
    case (Inr final)
    show ?thesis
    proof (cases "contains ''submit'' (lower final)")
      case True
      with np nu Inr assms have "s' = ?s1" by (simp add: sniff_step_def Let_def)
      with nu show ?thesis by simp
    next
      case ns: False
      obtain rb s2 where fb: "fetch_body E final ?s1 = (rb, s2)" by (cases "fetch_body E final ?s1")
      from fetch_body_effect [OF fb] have
        u2: "unique s2 = insert link (unique s)" and d2: "discovered s2 = discovered s"
        and t2: "trace s2 = trace s @ [Fetched final] \<or> trace s2 = trace s @ [Fetched final, Rendered final]"
        by simp_all
      have u: "unique s' = insert link (unique s)" and t: "trace s' = trace s2"
        and d: "discovered s' = discovered s
               \<or> (\<exists>body. discovered s' = AList.update final (take 12000 body) (discovered s))"
      proof -
        show "unique s' = insert link (unique s)" "trace s' = trace s2"
          using np nu Inr ns fb assms u2
          by (cases rb; simp add: sniff_step_def Let_def; force)+
        show "discovered s' = discovered s
               \<or> (\<exists>body. discovered s' = AList.update final (take 12000 body) (discovered s))"
          using np nu Inr ns fb assms d2
          by (cases rb; simp add: sniff_step_def Let_def; force)
      qed
      have "\<exists>final. link \<notin> unique s \<and> unique s' = insert link (unique s)
             \<and> resolve_link E base link = Inr final
             \<and> \<not> contains ''submit'' (lower final)
             \<and> (trace s' = trace s @ [Fetched final]
                 \<or> trace s' = trace s @ [Fetched final, Rendered final])
             \<and> (discovered s' = discovered s
                 \<or> (\<exists>body. discovered s' = AList.update final (take 12000 body) (discovered s)))"
        using nu u Inr ns t t2 d by (intro exI [of _ final]) simp
      then show ?thesis by blast
    qed
  qed
qed

lemma stored_ok_update:
  assumes "stored_ok d" "\<not> contains ''submit'' (lower final)"
  shows "stored_ok (AList.update final (take 12000 body) d)"
proof -
  have "set (AList.update final (take 12000 body) d) \<subseteq> insert (final, take 12000 body) (set d)"
    by (induction d) auto
  with assms show ?thesis
    by (auto simp: stored_ok_def distinct_update)
qed

lemma trace_ok_append: "trace_ok (xs @ ys) \<longleftrightarrow> trace_ok xs \<and> trace_ok ys"
  by (auto simp: trace_ok_def)

lemma sniff_step_ok:
  assumes st: "sniff_step E base link s = (r, s')"
    and d: "stored_ok (discovered s)" and t: "trace_ok (trace s)"
  shows "stored_ok (discovered s') \<and> trace_ok (trace s')"
proof -
  from sniff_step_effect [OF st] consider
      (same) "trace s' = trace s" "discovered s' = discovered s"
    | (fetch) final where "\<not> contains ''submit'' (lower final)"
        "trace s' = trace s @ [Fetched final] \<or> trace s' = trace s @ [Fetched final, Rendered final]"
        "discovered s' = discovered s
          \<or> (\<exists>body. discovered s' = AList.update final (take 12000 body) (discovered s))"
    by blast
  then show ?thesis
  proof cases
    case same
    with d t show ?thesis by simp
  next
    case fetch
    have "trace_ok [Fetched final]" "trace_ok [Fetched final, Rendered final]"
      using fetch(1) by (simp_all add: trace_ok_def event_url_def)
    with fetch(2) t have "trace_ok (trace s')" by (auto simp: trace_ok_append)
    moreover have "stored_ok (discovered s')"
      using fetch(3) d stored_ok_update [OF d fetch(1)] by auto
    ultimately show ?thesis by simp
  qed
qed

lemma sniff_loop_ok:
  "sniff_loop E base links s = (r, s') \<Longrightarrow> stored_ok (discovered s) \<Longrightarrow> trace_ok (trace s)
     \<Longrightarrow> stored_ok (discovered s') \<and> trace_ok (trace s')"
proof (induction links arbitrary: s)
  case Nil
  then show ?case by simp
next
  case (Cons link links)
  obtain r1 s1 where st: "sniff_step E base link s = (r1, s1)" by (cases "sniff_step E base link s")
  from sniff_step_ok [OF st Cons.prems(2,3)] have ok: "stored_ok (discovered s1)" "trace_ok (trace s1)"
    by simp_all
  show ?case
  proof (cases r1)
    case None
    with st Cons.prems(1) have "sniff_loop E base links s1 = (r, s')" by simp
    from Cons.IH [OF this ok] show ?thesis .
  next
    case (Some e)
    with st Cons.prems(1) have "s' = s1" by simp
    with ok show ?thesis by simp
  qed
qed

lemma sniff_run_ok:
  assumes "sniff_run E base html_text visible_text w = (r, s)"
  shows "stored_ok (discovered s) \<and> trace_ok (trace s)"
  using assms unfolding sniff_run_def
  by (rule sniff_loop_ok) (simp_all add: stored_ok_def trace_ok_def sniff_start_def)

lemma fetched_append: "fetched (xs @ ys) = fetched xs @ fetched ys"
  by (simp add: fetched_def)

lemma sniff_step_origin:
  assumes st: "sniff_step E base link s = (r, s')" and o: "fetch_origin E base s ls"
  shows "\<exists>ls'. fetch_origin E base s' ls' \<and> unique s' \<subseteq> insert link (unique s)"
proof -
  from sniff_step_effect [OF st] consider
      (same) "s' = s"
    | (skip) "link \<notin> unique s" "unique s' = insert link (unique s)" "trace s' = trace s"
    | (fetch) final where "link \<notin> unique s" "unique s' = insert link (unique s)"
        "resolve_link E base link = Inr final"
        "trace s' = trace s @ [Fetched final] \<or> trace s' = trace s @ [Fetched final, Rendered final]"
    by blast
  then show ?thesis
  proof cases
    case same
    with o have "fetch_origin E base s' ls" by simp
    moreover have "unique s' \<subseteq> insert link (unique s)" using same by auto
    ultimately show ?thesis by blast
  next
    case skip
    with o have "fetch_origin E base s' ls" by (auto simp: fetch_origin_def)
    with skip show ?thesis by auto
  next
    case fetch
    from fetch(4) have f: "fetched (trace s') = fetched (trace s) @ [final]"
      by (auto simp: fetched_def)
    from o have "link \<notin> set ls" using fetch(1) by (auto simp: fetch_origin_def)
    with o f fetch(2,3) have "fetch_origin E base s' (ls @ [link])"
      by (auto simp: fetch_origin_def)
    with fetch(2) show ?thesis by auto
  qed
qed

lemma sniff_loop_origin:
  "sniff_loop E base links s = (r, s') \<Longrightarrow> fetch_origin E base s ls
     \<Longrightarrow> \<exists>ls'. fetch_origin E base s' ls' \<and> unique s' \<subseteq> unique s \<union> set links"
proof (induction links arbitrary: s ls)
  case Nil
  then show ?case by auto
next
  case (Cons link links)
  obtain r1 s1 where st: "sniff_step E base link s = (r1, s1)" by (cases "sniff_step E base link s")
  from sniff_step_origin [OF st Cons.prems(2)] obtain l1 where
    o1: "fetch_origin E base s1 l1" and u1: "unique s1 \<subseteq> insert link (unique s)" by blast
  show ?case
  proof (cases r1)
    case None
    with st Cons.prems(1) have "sniff_loop E base links s1 = (r, s')" by simp
    from Cons.IH [OF this o1] obtain l2 where
      "fetch_origin E base s' l2" "unique s' \<subseteq> unique s1 \<union> set links" by blast
    with u1 show ?thesis by auto
  next
    case (Some e)
    with st Cons.prems(1) have "s' = s1" by simp
    with o1 u1 show ?thesis by auto
  qed
qed

lemma sniff_run_origin:
  assumes "sniff_run E base html_text visible_text w = (r, s)"
  shows "\<exists>ls. distinct ls \<and> set ls \<subseteq> set (raw_urls E html_text visible_text)
           \<and> map (resolve_link E base) ls = map Inr (fetched (trace s))"
proof -
  have "fetch_origin E base (sniff_start w) []"
    by (simp add: fetch_origin_def fetched_def sniff_start_def)
  from sniff_loop_origin [OF assms [unfolded sniff_run_def] this]
  show ?thesis by (auto simp: fetch_origin_def sniff_start_def)
qed

lemma sniff_step_None:
  assumes st: "sniff_step E base link s = (None, s')"
  shows "(s' = s \<and> (prefix ''#'' link \<or> prefix ''javascript'' link \<or> link \<in> unique s))
       \<or> (link \<notin> unique s \<and> unique s' = insert link (unique s)
           \<and> fetched (trace s') = fetched (trace s)
                @ (case fetch_target E base link of None \<Rightarrow> [] | Some final \<Rightarrow> [final]))"
proof (cases "prefix ''#'' link \<or> prefix ''javascript'' link \<or> link \<in> unique s")
  case True
  with st have "s' = s" by (auto simp: sniff_step_def split: if_splits)
  with True show ?thesis by simp
next
  case False
  then have np: "\<not> (prefix ''#'' link \<or> prefix ''javascript'' link)" and nu: "link \<notin> unique s"
    by simp_all
  let ?s1 = "s\<lparr>unique := insert link (unique s)\<rparr>"
  show ?thesis
  proof (cases "resolve_link E base link")
    case (Inl e)
    with np nu st show ?thesis by (simp add: sniff_step_def Let_def)
  next
    case (Inr final)
    show ?thesis
    proof (cases "contains ''submit'' (lower final)")
      case True
      with np nu Inr st have "s' = ?s1" by (simp add: sniff_step_def Let_def)
      with nu np Inr True show ?thesis by (simp add: fetch_target_def)
    next
      case ns: False
      from sniff_step_effect [OF st] nu np obtain final' where
        u: "unique s' = insert link (unique s)" and r: "resolve_link E base link = Inr final'"
        and t: "trace s' = trace s @ [Fetched final'] \<or> trace s' = trace s @ [Fetched final', Rendered final']"
      proof -
        from sniff_step_effect [OF st] consider
            (a) "s' = s"
          | (b) "unique s' = insert link (unique s)" "trace s' = trace s"
          | (c) f where "unique s' = insert link (unique s)" "resolve_link E base link = Inr f"
              "trace s' = trace s @ [Fetched f] \<or> trace s' = trace s @ [Fetched f, Rendered f]"
          by blast
        then show ?thesis
        proof cases
          case a
          obtain rb s2 where fb: "fetch_body E final ?s1 = (rb, s2)"
            by (cases "fetch_body E final ?s1")
          from fetch_body_effect [OF fb] have "trace s2 \<noteq> trace s" by auto
          moreover have "trace s' = trace s2"
            using np nu Inr ns fb st by (cases rb; simp add: sniff_step_def Let_def; force)
          ultimately show ?thesis using a by simp
        next
          case b
          obtain rb s2 where fb: "fetch_body E final ?s1 = (rb, s2)"
            by (cases "fetch_body E final ?s1")
          from fetch_body_effect [OF fb] have "trace s2 \<noteq> trace s" by auto
          moreover have "trace s' = trace s2"
            using np nu Inr ns fb st by (cases rb; simp add: sniff_step_def Let_def; force)
          ultimately show ?thesis using b by simp
        next
          case c
          then show ?thesis using that by blast
        qed
      qed
      from r Inr have ff: "final' = final" by simp
      from t ff have "fetched (trace s') = fetched (trace s) @ [final]"
        by (auto simp: fetched_def)
      with nu u np Inr ns show ?thesis by (simp add: fetch_target_def)
    qed
  qed
qed

lemma sniff_step_exact:
  assumes st: "sniff_step E base link s = (None, s')" and o: "fetch_exact E base s ls"
  shows "\<exists>ls'. fetch_exact E base s' ls'
           \<and> unique s' \<union> {l. fetch_target E base l = None}
               = insert link (unique s) \<union> {l. fetch_target E base l = None}"
proof -
  from sniff_step_None [OF st] consider
      (same) "s' = s" "prefix ''#'' link \<or> prefix ''javascript'' link \<or> link \<in> unique s"
    | (new) "link \<notin> unique s" "unique s' = insert link (unique s)"
        "fetched (trace s') = fetched (trace s)
           @ (case fetch_target E base link of None \<Rightarrow> [] | Some final \<Rightarrow> [final])"
    by blast
  then show ?thesis
  proof cases
    case same
    from same(2) have "link \<in> unique s \<or> fetch_target E base link = None"
      by (auto simp: fetch_target_def)
    then have "unique s \<union> {l. fetch_target E base l = None}
               = insert link (unique s) \<union> {l. fetch_target E base l = None}"
      by auto
    with o same(1) show ?thesis by blast
  next
    case new
    show ?thesis
    proof (cases "fetch_target E base link")
      case None
      with o new have "fetch_exact E base s' ls" by (auto simp: fetch_exact_def)
      with new(2) show ?thesis by blast
    next
      case (Some final)
      from o new(1) have "link \<notin> set ls" by (auto simp: fetch_exact_def)
      with o new Some have "fetch_exact E base s' (ls @ [link])"
        by (auto simp: fetch_exact_def)
      with new(2) show ?thesis by blast
    qed
  qed
qed

lemma sniff_loop_exact:
  "sniff_loop E base links s = (None, s') \<Longrightarrow> fetch_exact E base s ls
     \<Longrightarrow> \<exists>ls'. fetch_exact E base s' ls'
           \<and> unique s' \<union> {l. fetch_target E base l = None}
               = unique s \<union> set links \<union> {l. fetch_target E base l = None}"
proof (induction links arbitrary: s ls)
  case Nil
  then show ?case by auto
next
  case (Cons link links)
  obtain r1 s1 where st: "sniff_step E base link s = (r1, s1)" by (cases "sniff_step E base link s")
  with Cons.prems(1) have r1: "r1 = None" and rest: "sniff_loop E base links s1 = (None, s')"
    by (cases r1; simp)+
  from sniff_step_exact [OF st [unfolded r1] Cons.prems(2)] obtain l1 where
    o1: "fetch_exact E base s1 l1"
    and u1: "unique s1 \<union> {l. fetch_target E base l = None}
               = insert link (unique s) \<union> {l. fetch_target E base l = None}"
    by blast
  from Cons.IH [OF rest o1] obtain l2 where
    o2: "fetch_exact E base s' l2"
    and u2: "unique s' \<union> {l. fetch_target E base l = None}
               = unique s1 \<union> set links \<union> {l. fetch_target E base l = None}"
    by blast
  from u1 u2 have "unique s' \<union> {l. fetch_target E base l = None}
               = unique s \<union> set (link # links) \<union> {l. fetch_target E base l = None}"
    by auto
  with o2 show ?case by blast
qed

lemma sniff_run_exact:
  assumes "sniff_run E base html_text visible_text w = (None, s)"
  shows "\<exists>ls. distinct ls
           \<and> set ls = {l \<in> set (raw_urls E html_text visible_text). fetch_target E base l \<noteq> None}
           \<and> map (fetch_target E base) ls = map Some (fetched (trace s))"
proof -
  have "fetch_exact E base (sniff_start w) []"
    by (simp add: fetch_exact_def fetched_def sniff_start_def)
  from sniff_loop_exact [OF assms [unfolded sniff_run_def] this] obtain ls where
    o: "fetch_exact E base s ls"
    and u: "unique s \<union> {l. fetch_target E base l = None}
              = unique (sniff_start w) \<union> set (raw_urls E html_text visible_text)
                  \<union> {l. fetch_target E base l = None}"
    by blast
  from u have "{l \<in> unique s. fetch_target E base l \<noteq> None}
      = {l \<in> set (raw_urls E html_text visible_text). fetch_target E base l \<noteq> None}"
    by (auto simp: sniff_start_def)
  with o show ?thesis by (auto simp: fetch_exact_def)
qed

lemma sniff_related_urls_run:
  assumes "sniff_related_urls E base html_text visible_text w = (Inr d, w')"
  shows "\<exists>s. sniff_run E base html_text visible_text w = (None, s) \<and> d = discovered s"
  using assms by (auto simp: sniff_related_urls_def split: prod.splits option.splits)

lemma demo_lower:
  "lower ''http://h/data.csv'' = ''http://h/data.csv''"
  "lower ''http://h/submit'' = ''http://h/submit''"
  "lower ''http://h/app.js'' = ''http://h/app.js''"
  "lower ''http://h/big'' = ''http://h/big''"
  "lower ''httpdocs/page'' = ''httpdocs/page''"
  by code_simp+

lemmas demo_defs = demo_env_def demo_findall_def demo_http_get_def sniff_step_def
  resolve_link_def fetch_body_def render_dynamic_page_def render_try_def demo_lower
  is_Exception_def sniff_start_def Let_def

lemma demo_run: "sniff_run demo_env ''http://h/quiz'' ''<html>'' ''text'' 0 = (None, demo_final)"
  by (simp add: sniff_run_def raw_urls_def extraction_patterns_def demo_defs demo_final_def)

lemma demo_returns:
  "sniff_related_urls demo_env ''http://h/quiz'' ''<html>'' ''text'' 0 = (Inr (discovered demo_final), 5)"
  by (simp add: sniff_related_urls_def demo_run) (simp add: demo_final_def)

section \<open>Claims about discovery\<close>

text \<open>
  C10. A candidate that begins with the four characters "http" is its own resolved URL,
  whether or not it is a URL at all ("httpdocs/page" is one such candidate), and it is the
  string requested when the candidate is new and passes the filter. The result for a
  candidate that begins with "/" or with "http" does not depend on the function that resolves
  relative references; that function gives the result exactly for the candidates that begin
  with neither.
\<close>

theorem resolve_link_http_prefix:
  "(prefix ''http'' link \<longrightarrow> resolve_link E base link = Inr link)
   \<and> resolve_link E base ''httpdocs/page'' = Inr ''httpdocs/page''
   \<and> (prefix ''/'' link \<or> prefix ''http'' link
        \<longrightarrow> resolve_link (E\<lparr>urljoin := j\<rparr>) base link = resolve_link E base link)
   \<and> (\<not> prefix ''/'' link \<and> \<not> prefix ''http'' link
        \<longrightarrow> resolve_link E base link = urljoin E base link)
   \<and> (prefix ''http'' link \<and> link \<notin> unique s \<and> \<not> contains ''submit'' (lower link)
        \<longrightarrow> (\<exists>evs. trace (snd (sniff_step E base link s)) = trace s @ Fetched link # evs))"
proof -
  have np: "\<not> prefix ''/'' link" "\<not> prefix ''#'' link" "\<not> prefix ''javascript'' link"
    if "prefix ''http'' link"
    using that by (auto simp: prefix_def)
  have r: "resolve_link E base link = Inr link" if "prefix ''http'' link"
    using that np by (simp add: resolve_link_def)
  have st: "\<exists>evs. trace (snd (sniff_step E base link s)) = trace s @ Fetched link # evs"
    if "prefix ''http'' link" "link \<notin> unique s" "\<not> contains ''submit'' (lower link)"
    using that np r
    by (auto simp: sniff_step_def fetch_body_def Let_def split: prod.splits sum.splits)
  show ?thesis using r st by (auto simp: resolve_link_def)
qed

theorem resolve_link_http_prefix_witness:
  "prefix ''http'' ''httpdocs/page''
   \<and> resolve_link demo_env ''http://h/quiz'' ''httpdocs/page'' = Inr ''httpdocs/page''
   \<and> prefix ''/'' ''/data.csv''
   \<and> resolve_link (demo_env\<lparr>urljoin := \<lambda>b l. Inl ValueError\<rparr>) ''http://h/quiz'' ''/data.csv''
       = resolve_link demo_env ''http://h/quiz'' ''/data.csv''
   \<and> \<not> prefix ''/'' ''app.js'' \<and> \<not> prefix ''http'' ''app.js''
   \<and> resolve_link demo_env ''http://h/quiz'' ''app.js'' = urljoin demo_env ''http://h/quiz'' ''app.js''
   \<and> ''httpdocs/page'' \<notin> unique (sniff_start (0::nat))
   \<and> \<not> contains ''submit'' (lower ''httpdocs/page'')
   \<and> (\<exists>evs. trace (snd (sniff_step demo_env ''http://h/quiz'' ''httpdocs/page'' (sniff_start (0::nat))))
          = trace (sniff_start (0::nat)) @ Fetched ''httpdocs/page'' # evs)"
proof -
  have h: "prefix ''http'' ''httpdocs/page''" "prefix ''/'' ''/data.csv''"
    "\<not> prefix ''/'' ''app.js''" "\<not> prefix ''http'' ''app.js''"
    "''httpdocs/page'' \<notin> unique (sniff_start (0::nat))"
    "\<not> contains ''submit'' (lower ''httpdocs/page'')"
    by (simp_all add: sniff_start_def demo_lower)
  note a = resolve_link_http_prefix [of "''httpdocs/page''" demo_env "''http://h/quiz''"
      "\<lambda>b l. Inl ValueError" "sniff_start (0::nat)"]
  note b = resolve_link_http_prefix [of "''/data.csv''" demo_env "''http://h/quiz''"
      "\<lambda>b l. Inl ValueError" "sniff_start (0::nat)"]
  note c = resolve_link_http_prefix [of "''app.js''" demo_env "''http://h/quiz''"
      "\<lambda>b l. Inl ValueError" "sniff_start (0::nat)"]
  from a have "resolve_link demo_env ''http://h/quiz'' ''httpdocs/page'' = Inr ''httpdocs/page''"
    by (elim conjE)
  moreover from a have "prefix ''http'' ''httpdocs/page'' \<and> ''httpdocs/page'' \<notin> unique (sniff_start (0::nat))
       \<and> \<not> contains ''submit'' (lower ''httpdocs/page'')
     \<longrightarrow> (\<exists>evs. trace (snd (sniff_step demo_env ''http://h/quiz'' ''httpdocs/page'' (sniff_start (0::nat))))
          = trace (sniff_start (0::nat)) @ Fetched ''httpdocs/page'' # evs)"
    by (elim conjE)
  with h have "\<exists>evs. trace (snd (sniff_step demo_env ''http://h/quiz'' ''httpdocs/page'' (sniff_start (0::nat))))
          = trace (sniff_start (0::nat)) @ Fetched ''httpdocs/page'' # evs"
    by (elim impE) (intro conjI)
  moreover from b h have
    "resolve_link (demo_env\<lparr>urljoin := \<lambda>b l. Inl ValueError\<rparr>) ''http://h/quiz'' ''/data.csv''
       = resolve_link demo_env ''http://h/quiz'' ''/data.csv''"
    by blast
  moreover from c h have
    "resolve_link demo_env ''http://h/quiz'' ''app.js'' = urljoin demo_env ''http://h/quiz'' ''app.js''"
    by blast
  ultimately show ?thesis using h by blast
qed

text \<open>
  C5. Take a candidate that reaches the request: it is not skipped, it is new, it resolves to
  \<open>final\<close>, which passes the filter, and the request returns \<open>body\<close>. If \<open>body\<close> contains
  "<script" and is shorter than 600 characters, the browser is called exactly once, on
  \<open>final\<close>, after the one request, and the text it returns is stored under \<open>final\<close> in
  place of \<open>body\<close> (cut to 12000 characters as every stored body is). If \<open>body\<close> fails
  either condition, no browser call is made and \<open>body\<close> itself is stored.
\<close>

theorem sniff_step_script_fallback:
  assumes "\<not> prefix ''#'' link" and "\<not> prefix ''javascript'' link" and "link \<notin> unique s"
    and "resolve_link E base link = Inr final" and "\<not> contains ''submit'' (lower final)"
    and "http_get E final (world s) = (Inr body, w1)"
  shows "(contains ''<script'' body \<and> length body < 600
            \<and> render_dynamic_page E final w1 = (Inr out, w2)
          \<longrightarrow> sniff_step E base link s =
                (None, s\<lparr>unique := insert link (unique s),
                          discovered := AList.update final (take 12000 out) (discovered s),
                          world := w2,
                          trace := trace s @ [Fetched final, Rendered final]\<rparr>))
       \<and> (\<not> (contains ''<script'' body \<and> length body < 600)
          \<longrightarrow> sniff_step E base link s =
                (None, s\<lparr>unique := insert link (unique s),
                          discovered := AList.update final (take 12000 body) (discovered s),
                          world := w1,
                          trace := trace s @ [Fetched final]\<rparr>))
       \<and> (contains ''<script'' body \<and> length body < 600
          \<longrightarrow> trace (snd (sniff_step E base link s)) = trace s @ [Fetched final, Rendered final])"
  using assms
  by (simp add: sniff_step_def fetch_body_def Let_def split: prod.splits sum.splits)

theorem sniff_step_script_fallback_witness:
  "sniff_step demo_env ''http://h/quiz'' ''app.js'' (sniff_start 0) =
     (None, \<lparr>unique = {''app.js''}, discovered = [(''http://h/app.js'', ''code 123'')],
             world = 1, trace = [Fetched ''http://h/app.js'', Rendered ''http://h/app.js'']\<rparr>)
   \<and> sniff_step demo_env ''http://h/quiz'' ''/data.csv'' (sniff_start 0) =
     (None, \<lparr>unique = {''/data.csv''}, discovered = [(''http://h/data.csv'', ''7,8,9'')],
             world = 1, trace = [Fetched ''http://h/data.csv'']\<rparr>)"
proof -
  have a: "\<not> prefix ''#'' ''app.js''" "\<not> prefix ''javascript'' ''app.js''"
    "''app.js'' \<notin> unique (sniff_start (0::nat))"
    "resolve_link demo_env ''http://h/quiz'' ''app.js'' = Inr ''http://h/app.js''"
    "\<not> contains ''submit'' (lower ''http://h/app.js'')"
    "http_get demo_env ''http://h/app.js'' (world (sniff_start 0)) = (Inr ''<script src=x></script>'', 1)"
    by (simp_all add: demo_defs)
  have a': "contains ''<script'' ''<script src=x></script>'' \<and> length ''<script src=x></script>'' < 600
      \<and> render_dynamic_page demo_env ''http://h/app.js'' 1 = (Inr ''code 123'', 1)"
    by (simp add: demo_defs)
  have b: "\<not> prefix ''#'' ''/data.csv''" "\<not> prefix ''javascript'' ''/data.csv''"
    "''/data.csv'' \<notin> unique (sniff_start (0::nat))"
    "resolve_link demo_env ''http://h/quiz'' ''/data.csv'' = Inr ''http://h/data.csv''"
    "\<not> contains ''submit'' (lower ''http://h/data.csv'')"
    "http_get demo_env ''http://h/data.csv'' (world (sniff_start 0)) = (Inr ''7,8,9'', 1)"
    by (simp_all add: demo_defs)
  have b': "\<not> (contains ''<script'' ''7,8,9'' \<and> length ''7,8,9'' < 600)" by simp
  from sniff_step_script_fallback [OF a, of "''code 123''" 1] a'
    sniff_step_script_fallback [OF b, of "''code 123''" 1] b'
  show ?thesis by (simp add: sniff_start_def)
qed

text \<open>
  C3. However discovery ends, no URL whose lower-case form contains "submit" has been
  requested over HTTP or handed to the browser, and none is a key of the mapping built; so
  none is a key of the mapping returned. This holds whatever the patterns extracted.
\<close>

theorem sniff_never_touches_submit:
  assumes "sniff_run E base html_text visible_text w = (r, s)"
  shows "(\<forall>ev\<in>set (trace s). \<not> contains ''submit'' (lower (event_url ev)))
       \<and> (\<forall>item\<in>set (discovered s). \<not> contains ''submit'' (lower (fst item)))
       \<and> (\<forall>d w'. sniff_related_urls E base html_text visible_text w = (Inr d, w')
            \<longrightarrow> (\<forall>item\<in>set d. \<not> contains ''submit'' (lower (fst item))))"
proof -
  from sniff_run_ok [OF assms] have "stored_ok (discovered s)" "trace_ok (trace s)" by simp_all
  then have a: "\<forall>ev\<in>set (trace s). \<not> contains ''submit'' (lower (event_url ev))"
    and b: "\<forall>item\<in>set (discovered s). \<not> contains ''submit'' (lower (fst item))"
    by (simp_all add: stored_ok_def trace_ok_def)
  have "\<forall>item\<in>set d. \<not> contains ''submit'' (lower (fst item))"
    if "sniff_related_urls E base html_text visible_text w = (Inr d, w')" for d w'
    using sniff_related_urls_run [OF that] assms b by auto
  with a b show ?thesis by blast
qed

theorem sniff_never_touches_submit_witness:
  "sniff_run demo_env ''http://h/quiz'' ''<html>'' ''text'' 0 = (None, demo_final)
   \<and> ''/submit'' \<in> set (raw_urls demo_env ''<html>'' ''text'')
   \<and> resolve_link demo_env ''http://h/quiz'' ''/submit'' = Inr ''http://h/submit''
   \<and> list_all (\<lambda>ev. \<not> contains ''submit'' (lower (event_url ev))) (trace demo_final)
   \<and> list_all (\<lambda>item. \<not> contains ''submit'' (lower (fst item))) (discovered demo_final)
   \<and> ''http://h/submit'' \<notin> set (map event_url (trace demo_final))
   \<and> ''http://h/submit'' \<notin> set (map fst (discovered demo_final))"
proof -
  have c: "''/submit'' \<in> set (raw_urls demo_env ''<html>'' ''text'')"
    "resolve_link demo_env ''http://h/quiz'' ''/submit'' = Inr ''http://h/submit''"
    by (simp_all add: raw_urls_def extraction_patterns_def demo_defs)
  have d: "contains ''submit'' (lower ''http://h/submit'')" by (simp add: demo_lower)
  note t = sniff_never_touches_submit [OF demo_run]
  from t have l: "list_all (\<lambda>ev. \<not> contains ''submit'' (lower (event_url ev))) (trace demo_final)"
    "list_all (\<lambda>item. \<not> contains ''submit'' (lower (fst item))) (discovered demo_final)"
    by (simp_all add: list_all_iff)
  from t d have "''http://h/submit'' \<notin> set (map event_url (trace demo_final))"
    "''http://h/submit'' \<notin> set (map fst (discovered demo_final))"
    by auto
  with c l demo_run show ?thesis by simp
qed

text \<open>
  C6 (as the code has it). Candidates are deduplicated as raw strings, before they are
  resolved: however discovery ends, the requests made, in order, are the resolved forms of
  pairwise distinct candidates, so a raw link that occurs several times is requested at most
  once; and every resolved URL is a key of the mapping at most once. When discovery runs to
  its end, the requests are those of exactly the distinct candidates that have a target (not
  a fragment or script link, and resolving to a URL without "submit"), one request each: a
  resolved URL is requested once for every distinct raw link with that target.
\<close>

theorem sniff_dedup_raw_links:
  assumes "sniff_run E base html_text visible_text w = (r, s)"
  shows "distinct (map fst (discovered s))
       \<and> (\<exists>ls. distinct ls \<and> set ls \<subseteq> set (raw_urls E html_text visible_text)
             \<and> map (resolve_link E base) ls = map Inr (fetched (trace s)))
       \<and> (r = None
          \<longrightarrow> (\<exists>ls. distinct ls
                 \<and> set ls = {l \<in> set (raw_urls E html_text visible_text). fetch_target E base l \<noteq> None}
                 \<and> map (fetch_target E base) ls = map Some (fetched (trace s))))"
proof -
  from sniff_run_ok [OF assms] have "distinct (map fst (discovered s))"
    by (simp add: stored_ok_def)
  moreover have "\<exists>ls. distinct ls
                 \<and> set ls = {l \<in> set (raw_urls E html_text visible_text). fetch_target E base l \<noteq> None}
                 \<and> map (fetch_target E base) ls = map Some (fetched (trace s))"
    if "r = None"
    using sniff_run_exact [of E base html_text visible_text w s] assms that by simp
  ultimately show ?thesis using sniff_run_origin [OF assms] by blast
qed

theorem sniff_dedup_raw_links_witness:
  "sniff_run demo_env ''http://h/quiz'' ''<html>'' ''text'' 0 = (None, demo_final)
   \<and> count_list (raw_urls demo_env ''<html>'' ''text'') ''/data.csv'' = 2
   \<and> distinct (map fst (discovered demo_final))
   \<and> (\<exists>ls. distinct ls \<and> set ls \<subseteq> set (raw_urls demo_env ''<html>'' ''text'')
         \<and> map (resolve_link demo_env ''http://h/quiz'') ls = map Inr (fetched (trace demo_final)))
   \<and> (\<exists>ls. distinct ls
         \<and> set ls = {l \<in> set (raw_urls demo_env ''<html>'' ''text'').
                      fetch_target demo_env ''http://h/quiz'' l \<noteq> None}
         \<and> map (fetch_target demo_env ''http://h/quiz'') ls = map Some (fetched (trace demo_final)))
   \<and> fetch_target demo_env ''http://h/quiz'' ''/data.csv'' = Some ''http://h/data.csv''
   \<and> fetch_target demo_env ''http://h/quiz'' ''http://h/data.csv'' = Some ''http://h/data.csv''
   \<and> fetch_target demo_env ''http://h/quiz'' ''/submit'' = None"
proof -
  have c: "count_list (raw_urls demo_env ''<html>'' ''text'') ''/data.csv'' = 2"
    by (simp add: raw_urls_def extraction_patterns_def demo_defs)
  have t: "fetch_target demo_env ''http://h/quiz'' ''/data.csv'' = Some ''http://h/data.csv''"
    "fetch_target demo_env ''http://h/quiz'' ''http://h/data.csv'' = Some ''http://h/data.csv''"
    "fetch_target demo_env ''http://h/quiz'' ''/submit'' = None"
    by (simp_all add: fetch_target_def demo_defs)
  from sniff_dedup_raw_links [OF demo_run] c t demo_run show ?thesis by blast
qed

theorem sniff_fetches_resolved_url_twice_counterexample:
  "resolve_link demo_env ''http://h/quiz'' ''/data.csv'' = Inr ''http://h/data.csv''
   \<and> resolve_link demo_env ''http://h/quiz'' ''http://h/data.csv'' = Inr ''http://h/data.csv''
   \<and> count_list (fetched (trace (snd (sniff_run demo_env ''http://h/quiz'' ''<html>'' ''text'' 0))))
        ''http://h/data.csv'' = 2"
  by (simp add: demo_run) (simp add: demo_defs demo_final_def fetched_def)

text \<open>
  C7. Every body in the mapping that discovery returns has at most 12000 characters, however
  long the body received was; the same holds of the mapping built when discovery is left by an
  exception.
\<close>

theorem sniff_bodies_bounded:
  "(sniff_related_urls E base html_text visible_text w = (Inr d, w')
      \<longrightarrow> (\<forall>item\<in>set d. length (snd item) \<le> 12000))
   \<and> (sniff_run E base html_text visible_text w = (r, s)
      \<longrightarrow> (\<forall>item\<in>set (discovered s). length (snd item) \<le> 12000))"
proof -
  have b: "\<forall>item\<in>set (discovered s). length (snd item) \<le> 12000"
    if "sniff_run E base html_text visible_text w = (r, s)" for r s
    using sniff_run_ok [OF that] by (simp add: stored_ok_def)
  have "\<forall>item\<in>set d. length (snd item) \<le> 12000"
    if "sniff_related_urls E base html_text visible_text w = (Inr d, w')"
    using sniff_related_urls_run [OF that] b by blast
  with b show ?thesis by blast
qed

theorem sniff_bodies_bounded_witness:
  "sniff_related_urls demo_env ''http://h/quiz'' ''<html>'' ''text'' 0 = (Inr (discovered demo_final), 5)
   \<and> sniff_run demo_env ''http://h/quiz'' ''<html>'' ''text'' 0 = (None, demo_final)
   \<and> fst (http_get demo_env ''http://h/big'' 0) = Inr (replicate 20000 CHR ''7'')
   \<and> map_of (discovered demo_final) ''http://h/big'' = Some (replicate 12000 CHR ''7'')
   \<and> list_all (\<lambda>item. length (snd item) \<le> 12000) (discovered demo_final)"
proof -
  have g: "fst (http_get demo_env ''http://h/big'' 0) = Inr (replicate 20000 CHR ''7'')"
    "map_of (discovered demo_final) ''http://h/big'' = Some (replicate 12000 CHR ''7'')"
    by (simp_all add: demo_defs demo_final_def)
  from sniff_bodies_bounded [of demo_env "''http://h/quiz''" "''<html>''" "''text''" 0
      "discovered demo_final" 5 None demo_final] demo_returns demo_run
  have "list_all (\<lambda>item. length (snd item) \<le> 12000) (discovered demo_final)"
    by (simp add: list_all_iff)
  with g demo_returns demo_run show ?thesis by simp
qed

end
